theory Spec2Isabelle
  imports Main "HOL-Library.Word"
begin

unbundle bit_operations_syntax

section \<open>Bytestring: a cursor over a byte slice (bytestring.go)\<close>

text \<open>
  Go's \<open>byte\<close> is an 8-bit word and \<open>uint64\<close> a 64-bit word; their arithmetic wraps
  around. Go's \<open>int\<close> (the cursor, slice lengths) is modelled as \<open>int\<close>: lengths of
  slices are far below \<open>2 ^ 63\<close>, so no \<open>int\<close> computation of the source overflows.
\<close>

type_synonym byte = "8 word"
type_synonym uint64 = "64 word"

text \<open>
  \<open>type Bytestring struct { b []byte; pos int }\<close>. The fields are unexported and
  every value is made by \<open>NewBytestring\<close>, which starts at position 0; the methods
  index \<open>b.b[b.pos]\<close> only after checking \<open>b.pos < len(b.b)\<close>.
\<close>

record Bytestring =
  bs_b :: "byte list"
  bs_pos :: int

definition NewBytestring :: "byte list \<Rightarrow> Bytestring" where
  "NewBytestring bb = \<lparr>bs_b = bb, bs_pos = 0\<rparr>"

text \<open>Every method takes the receiver's state and returns its result with the state after.\<close>

definition EOL :: "Bytestring \<Rightarrow> bool \<times> Bytestring" where
  "EOL s = (bs_pos s \<ge> int (length (bs_b s)), s)"

function SkipSpace :: "Bytestring \<Rightarrow> bool \<times> Bytestring" where
  "SkipSpace s =
     (if bs_pos s \<ge> int (length (bs_b s)) then (True, s)
      else if bs_b s ! nat (bs_pos s) \<noteq> 0x20 then (False, s)
      else SkipSpace (s\<lparr>bs_pos := bs_pos s + 1\<rparr>))"
  by pat_completeness auto
termination
  by (relation "measure (\<lambda>s. nat (int (length (bs_b s)) - bs_pos s))") auto

text \<open>
  The slice expression \<open>b.b[b.pos:b.pos+len(s)]\<close> is evaluated only when
  \<open>b.pos + len(s) \<le> len(b.b)\<close>, so it is \<open>take\<close> after \<open>drop\<close>.
\<close>

definition SkipText :: "Bytestring \<Rightarrow> byte list \<Rightarrow> bool \<times> Bytestring" where
  "SkipText s t =
     (if bs_pos s \<ge> int (length (bs_b s)) \<or> bs_pos s + int (length t) > int (length (bs_b s))
      then (False, s)
      else if t \<noteq> take (length t) (drop (nat (bs_pos s)) (bs_b s)) then (False, s)
      else (True, s\<lparr>bs_pos := bs_pos s + int (length t)\<rparr>))"

definition Next :: "Bytestring \<Rightarrow> (byte \<times> bool) \<times> Bytestring" where
  "Next s =
     (if bs_pos s \<ge> int (length (bs_b s)) then ((0, False), s)
      else ((bs_b s ! nat (bs_pos s), True), s\<lparr>bs_pos := bs_pos s + 1\<rparr>))"

text \<open>\<open>const cutoffDecimalUint64 = (1<<64-1)/10 + 1\<close>, an untyped constant expression.\<close>

definition cutoffDecimalUint64 :: uint64 where
  "cutoffDecimalUint64 = of_int ((2 ^ 64 - 1) div 10 + 1)"

text \<open>The loop of \<open>Uint64\<close>; \<open>num\<close> and \<open>ok\<close> are its named results, zero at entry.\<close>

function Uint64_loop :: "Bytestring \<Rightarrow> uint64 \<Rightarrow> bool \<Rightarrow> (uint64 \<times> bool) \<times> Bytestring" where
  "Uint64_loop s num ok =
     (if bs_pos s \<ge> int (length (bs_b s))
      then (if \<not> ok then ((0, False), s) else ((num, True), s))
      else if bs_b s ! nat (bs_pos s) < 0x30 \<or> bs_b s ! nat (bs_pos s) > 0x39
      then (if \<not> ok then ((0, False), s) else ((num, True), s))
      else if num \<ge> cutoffDecimalUint64 then ((0, False), s)
      else Uint64_loop (s\<lparr>bs_pos := bs_pos s + 1\<rparr>)
             (num * 10 + ucast (bs_b s ! nat (bs_pos s) - 0x30)) True)"
  by pat_completeness auto
termination
  by (relation "measure (\<lambda>(s, num, ok). nat (int (length (bs_b s)) - bs_pos s))") auto

definition Uint64 :: "Bytestring \<Rightarrow> (uint64 \<times> bool) \<times> Bytestring" where
  "Uint64 s = Uint64_loop s 0 False"

text \<open>\<open>const cutoffHexUint64 = 1 << 60\<close>.\<close>

definition cutoffHexUint64 :: uint64 where
  "cutoffHexUint64 = push_bit 60 1"

text \<open>
  The \<open>if\<close>/\<open>else if\<close> chain of \<open>HexUint64\<close> that computes \<open>digit\<close> (a byte, in byte
  arithmetic); \<open>None\<close> is the case where the byte is no hexadecimal digit.
\<close>

definition hexdigit :: "byte \<Rightarrow> byte option" where
  "hexdigit ch =
     (if ch \<ge> 0x30 \<and> ch \<le> 0x39 then Some (ch - 0x30)
      else if ch \<ge> 0x61 \<and> ch \<le> 0x66 then Some (ch - 0x61 + 10)
      else if ch \<ge> 0x41 \<and> ch \<le> 0x46 then Some (ch - 0x41 + 10)
      else None)"

function HexUint64_loop :: "Bytestring \<Rightarrow> uint64 \<Rightarrow> bool \<Rightarrow> (uint64 \<times> bool) \<times> Bytestring" where
  "HexUint64_loop s num ok =
     (if bs_pos s \<ge> int (length (bs_b s))
      then (if \<not> ok then ((0, False), s) else ((num, True), s))
      else (case hexdigit (bs_b s ! nat (bs_pos s)) of
              None \<Rightarrow> (if \<not> ok then ((0, False), s) else ((num, True), s))
            | Some digit \<Rightarrow>
                if num \<ge> cutoffHexUint64 then ((0, False), s)
                else HexUint64_loop (s\<lparr>bs_pos := bs_pos s + 1\<rparr>)
                       (push_bit 4 num + ucast digit) True))"
  by pat_completeness auto
termination
  by (relation "measure (\<lambda>(s, num, ok). nat (int (length (bs_b s)) - bs_pos s))") auto

definition HexUint64 :: "Bytestring \<Rightarrow> (uint64 \<times> bool) \<times> Bytestring" where
  "HexUint64 s = HexUint64_loop s 0 False"

text \<open>
  \<open>NumFields\<close> runs two inner loops in turn inside an endless outer loop, on a local
  copy of the position: the first skips spaces, the second skips a field.
\<close>

function NumFields_spaces :: "byte list \<Rightarrow> int \<Rightarrow> int \<Rightarrow> int"
  and NumFields_field :: "byte list \<Rightarrow> int \<Rightarrow> int \<Rightarrow> int" where
  "NumFields_spaces bb p num =
     (if p \<ge> int (length bb) then num
      else if bb ! nat p \<noteq> 0x20 then NumFields_field bb p (num + 1)
      else NumFields_spaces bb (p + 1) num)"
| "NumFields_field bb p num =
     (if p \<ge> int (length bb) then num
      else if bb ! nat p = 0x20 then NumFields_spaces bb p num
      else NumFields_field bb (p + 1) num)"
  by pat_completeness auto
termination
  apply (relation "measure (\<lambda>x. case x of
          Inl (bb, p, num) \<Rightarrow> 2 * nat (int (length bb) - p)
             + (if p < int (length bb) \<and> bb ! nat p \<noteq> 0x20 then 1 else 0)
        | Inr (bb, p, num) \<Rightarrow> 2 * nat (int (length bb) - p)
             + (if p < int (length bb) \<and> bb ! nat p = 0x20 then 1 else 0))")
  subgoal by simp
  subgoal for bb p num by simp
  subgoal for bb p num
    by (cases "p + 1 < int (length bb) \<and> bb ! nat (p + 1) \<noteq> 32") (simp_all, linarith+)
  subgoal for bb p num by simp
  subgoal for bb p num
    by (cases "p + 1 < int (length bb) \<and> bb ! nat (p + 1) = 32") (simp_all, linarith+)
  done

definition NumFields :: "Bytestring \<Rightarrow> int \<times> Bytestring" where
  "NumFields s = (NumFields_spaces (bs_b s) (bs_pos s) 0, s)"

section \<open>ParseUint (parseuint.go)\<close>

text \<open>
  Modelled from the spec: \<open>newBytestring\<close>, the constructor that \<open>ParseUint\<close> calls, is
  not among the sources; the spec says that the parser "constructs a scanner over the
  whole buffer", which is what the exported \<open>NewBytestring\<close> does.
\<close>

definition newBytestring :: "byte list \<Rightarrow> Bytestring" where
  "newBytestring bb = \<lparr>bs_b = bb, bs_pos = 0\<rparr>"

definition ParseUint :: "byte list \<Rightarrow> uint64 \<times> bool" where
  "ParseUint bb =
     (let ((val, ok), buff) = Uint64 (newBytestring bb) in
      if \<not> ok then (0, ok)
      else if \<not> fst (EOL buff) then (0, False)
      else (val, ok))"

text \<open>The bytes of an ASCII text.\<close>

definition ascii :: "string \<Rightarrow> byte list" where
  "ascii cs = map of_char cs"

section \<open>RawDirEntry64: one record of getdents64 in a byte slice (direntry.go)\<close>

text \<open>
  The field offsets and sizes come from \<open>unsafe.Offsetof\<close> and \<open>unsafe.Sizeof\<close> on
  \<open>unix.Dirent\<close> of golang.org/x/sys/unix, which on 64-bit Linux is
  \<open>{ Ino uint64; Off int64; Reclen uint16; Type uint8; Name [256]int8; _ [5]byte }\<close>.
\<close>

definition Offsetof_Ino :: nat where "Offsetof_Ino = 0"
definition Sizeof_Ino :: nat where "Sizeof_Ino = 8"
definition Offsetof_Reclen :: nat where "Offsetof_Reclen = 16"
definition Sizeof_Reclen :: nat where "Sizeof_Reclen = 2"
definition Offsetof_Type :: nat where "Offsetof_Type = 18"
definition Offsetof_Name :: nat where "Offsetof_Name = 19"

text \<open>
  \<open>binary.NativeEndian.Uint16/32/64\<close> on the little-endian targets (amd64, arm64):
  the first byte is the least significant one.
\<close>

fun NativeEndian_Uint :: "byte list \<Rightarrow> uint64" where
  "NativeEndian_Uint [] = 0"
| "NativeEndian_Uint (x # xs) = ucast x OR push_bit 8 (NativeEndian_Uint xs)"

definition readUint :: "byte list \<Rightarrow> nat \<Rightarrow> nat \<Rightarrow> uint64 \<times> bool" where
  "readUint bb offset sz =
     (if int (offset + sz) > int (length bb) then (0, False)
      else if sz = 8 then (NativeEndian_Uint (take sz (drop offset bb)), True)
      else if sz = 4 then (NativeEndian_Uint (take sz (drop offset bb)), True)
      else if sz = 2 then (NativeEndian_Uint (take sz (drop offset bb)), True)
      else (0, False))"

definition Ino :: "byte list \<Rightarrow> uint64 \<times> bool" where
  "Ino d = readUint d Offsetof_Ino Sizeof_Ino"

definition Len :: "byte list \<Rightarrow> uint64 \<times> bool" where
  "Len d = readUint d Offsetof_Reclen Sizeof_Reclen"

text \<open>\<open>DirEntryType\<close> is a \<open>uint8\<close>; \<open>uint64(len(d))\<close> is the length as a 64-bit word.\<close>

definition Type :: "byte list \<Rightarrow> byte \<times> bool" where
  "Type d =
     (if (of_nat Offsetof_Type :: uint64) \<ge> of_nat (length d) then (0, False)
      else (d ! Offsetof_Type, True))"

text \<open>
  A Go index or slice expression out of range panics. \<open>Panic\<close> is that outcome,
  \<open>Return\<close> the normal one.
\<close>

datatype 'a outcome = Panic | Return 'a

text \<open>
  The slice expression \<open>d[lo:hi]\<close> with \<open>uint64\<close> bounds. Its value is the span of \<open>d\<close>
  from index \<open>lo\<close> up to and excluding \<open>hi\<close>, kept as the pair of the two indices; it
  panics when \<open>lo > hi\<close> or \<open>hi\<close> is past the bound. (The bound of a slice expression
  is the capacity, at least the length; \<open>Name\<close> slices only after it has checked its
  upper index against \<open>len(d)\<close>.)
\<close>

definition subslice :: "byte list \<Rightarrow> uint64 \<Rightarrow> uint64 \<Rightarrow> (nat \<times> nat) option outcome" where
  "subslice d lo hi =
     (if lo \<le> hi \<and> unat hi \<le> length d then Return (Some (unat lo, unat hi)) else Panic)"

text \<open>The bytes of the span \<open>(lo, hi)\<close> of \<open>d\<close>.\<close>

definition span_bytes :: "byte list \<Rightarrow> nat \<times> nat \<Rightarrow> byte list" where
  "span_bytes d sp = take (snd sp - fst sp) (drop (fst sp) d)"

text \<open>
  The \<open>for pos := nameoffset; pos < nameoffset+namelen; pos++\<close> loop of \<open>Name\<close> and the
  return after it; \<open>lim\<close> is \<open>nameoffset+namelen\<close>, computed in \<open>uint64\<close>.
\<close>

function Name_scan :: "byte list \<Rightarrow> uint64 \<Rightarrow> uint64 \<Rightarrow> uint64 \<Rightarrow> (nat \<times> nat) option outcome" where
  "Name_scan d nameoffset lim pos =
     (if pos < lim
      then (if unat pos \<ge> length d then Panic
            else if d ! unat pos = 0 then subslice d nameoffset pos
            else Name_scan d nameoffset lim (pos + 1))
      else subslice d nameoffset lim)"
  by pat_completeness auto
termination
proof (relation "measure (\<lambda>(d, nameoffset, lim, pos). unat lim - unat pos)")
  show "wf (measure (\<lambda>(d, nameoffset, lim, pos). unat lim - unat pos))"
    by simp
next
  fix d :: "byte list" and nameoffset lim pos :: uint64
  assume "pos < lim"
  then have below: "unat pos < unat lim"
    by (simp add: word_less_nat_alt)
  moreover have "unat lim < 2 ^ 64"
    using unsigned_less [of lim] by simp
  ultimately have "unat pos + 1 < 2 ^ 64"
    by linarith
  then have "unat (pos + 1) = Suc (unat pos)"
    by (simp add: unat_word_ariths)
  with below show "((d, nameoffset, lim, pos + 1), (d, nameoffset, lim, pos))
      \<in> measure (\<lambda>(d, nameoffset, lim, pos). unat lim - unat pos)"
    by simp
qed

definition Name :: "byte list \<Rightarrow> (nat \<times> nat) option outcome" where
  "Name d =
     (let (dentryLen, ok) = Len d in
      if \<not> ok then Return None
      else let nameoffset = (of_nat Offsetof_Name :: uint64);
               namelen = dentryLen - nameoffset
           in if nameoffset + namelen > of_nat (length d) then Return None
              else Name_scan d nameoffset (nameoffset + namelen) nameoffset)"

section \<open>ReadDir: the directory iterator (readdir.go)\<close>

record DirEntry =
  de_Ino :: uint64
  de_Name :: "byte list"
  de_Type :: byte

text \<open>
  The kernel side. An open directory is the list of the results that the successive
  \<open>syscall.Getdents(fd, buff)\<close> calls will deliver: an error, or the bytes written to
  the front of \<open>buff\<close>, whose number is the returned count. When the list is used up the
  directory is at its end and the call returns 0.
\<close>

datatype getdents = Errno | Filled "byte list"

fun Getdents :: "getdents list \<Rightarrow> getdents \<times> getdents list" where
  "Getdents [] = (Filled [], [])"
| "Getdents (r # rs) = (r, rs)"

text \<open>How the iterator function came to its end.\<close>

datatype ending = Finished | Panicked

text \<open>
  One pass through the body of the \<open>for\<close> loop of the iterator function either
  returns or goes round again. The variables of the loop are: \<open>fd\<close>, the open
  directory; \<open>buff\<close>, which holds the bytes of the last read (the loop reads
  \<open>buff[pos:avail]\<close> only, and \<open>avail\<close> is the count of that read); \<open>pos\<close> and
  \<open>avail\<close>; and \<open>acc\<close>, the entries yielded so far, in order.
\<close>

datatype pass =
    Stop "DirEntry list \<times> ending"
  | Continue "getdents list" "byte list" int int "DirEntry list"

text \<open>"(re)fill the buffer when necessary": \<open>None\<close> is the \<open>return\<close> of this part.\<close>

definition ReadDir_fill ::
  "getdents list \<Rightarrow> byte list \<Rightarrow> int \<Rightarrow> int \<Rightarrow> (getdents list \<times> byte list \<times> int \<times> int) option" where
  "ReadDir_fill fd buff pos avail =
     (if pos \<ge> avail
      then (case Getdents fd of
              (Errno, fd') \<Rightarrow> None
            | (Filled bytes, fd') \<Rightarrow>
                if int (length bytes) \<le> 0 then None
                else Some (fd', bytes, 0, int (length bytes)))
      else Some (fd, buff, pos, avail))"

text \<open>
  "now drain the buffer": the rest of the body. \<open>yield\<close> is the consumer: given the
  entries it has seen before and the new one, it says whether it wants more. The name
  of a yielded entry aliases the buffer; the consumer is handed the bytes it holds at
  the time of the call.
\<close>

definition ReadDir_drain ::
  "(DirEntry list \<Rightarrow> DirEntry \<Rightarrow> bool) \<Rightarrow> getdents list \<Rightarrow> byte list \<Rightarrow> int \<Rightarrow> int
     \<Rightarrow> DirEntry list \<Rightarrow> pass" where
  "ReadDir_drain yield fd buff pos avail acc =
     (let dentry = take (nat (avail - pos)) (drop (nat pos) buff);
          (dentryLen, ok) = Len dentry
      in if \<not> ok \<or> dentryLen > of_nat (length dentry) then Stop (acc, Finished)
         else let pos = pos + uint dentryLen;
                  (ino, ok) = Ino dentry
              in if \<not> ok \<or> ino = 0 then Continue fd buff pos avail acc
                 else (case Name dentry of
                         Panic \<Rightarrow> Stop (acc, Panicked)
                       | Return None \<Rightarrow> Stop (acc, Finished)
                       | Return (Some sp) \<Rightarrow>
                           let name = span_bytes dentry sp
                           in if name = [0x2E] \<or> name = [0x2E, 0x2E]
                              then Continue fd buff pos avail acc
                              else let (typ, ok) = Type dentry
                                   in if \<not> ok then Stop (acc, Finished)
                                      else let dirEntry =
                                             \<lparr>de_Ino = ino, de_Name = name, de_Type = typ\<rparr>
                                           in if \<not> yield acc dirEntry
                                              then Stop (acc @ [dirEntry], Finished)
                                              else Continue fd buff pos avail
                                                     (acc @ [dirEntry])))"

definition ReadDir_body ::
  "(DirEntry list \<Rightarrow> DirEntry \<Rightarrow> bool) \<Rightarrow> getdents list \<Rightarrow> byte list \<Rightarrow> int \<Rightarrow> int
     \<Rightarrow> DirEntry list \<Rightarrow> pass" where
  "ReadDir_body yield fd buff pos avail acc =
     (case ReadDir_fill fd buff pos avail of
        None \<Rightarrow> Stop (acc, Finished)
      | Some (fd', buff', pos', avail') \<Rightarrow> ReadDir_drain yield fd' buff' pos' avail' acc)"

text \<open>
  The loop has no exit condition of its own, and nothing in it bounds the number of
  passes: the result is \<open>None\<close> when it never returns, otherwise the entries yielded
  and the kind of end.
\<close>

partial_function (option) ReadDir_loop ::
  "(DirEntry list \<Rightarrow> DirEntry \<Rightarrow> bool) \<Rightarrow> getdents list \<Rightarrow> byte list \<Rightarrow> int \<Rightarrow> int
     \<Rightarrow> DirEntry list \<Rightarrow> (DirEntry list \<times> ending) option" where
  "ReadDir_loop yield fd buff pos avail acc =
     (case ReadDir_body yield fd buff pos avail acc of
        Stop r \<Rightarrow> Some r
      | Continue fd' buff' pos' avail' acc' \<Rightarrow> ReadDir_loop yield fd' buff' pos' avail' acc')"

declare ReadDir_loop.simps [code]

text \<open>
  \<open>ReadDir\<close>: \<open>None\<close> as directory is a name that \<open>unix.Open\<close> cannot open. The buffer
  taken from the pool has arbitrary contents; with \<open>pos = avail = 0\<close> the loop reads
  into it before it looks at it.
\<close>

definition readDirBufferSize :: nat where
  "readDirBufferSize = 8192"

definition ReadDir ::
  "getdents list option \<Rightarrow> (DirEntry list \<Rightarrow> DirEntry \<Rightarrow> bool) \<Rightarrow> (DirEntry list \<times> ending) option" where
  "ReadDir dir yield =
     (case dir of None \<Rightarrow> Some ([], Finished) | Some fd \<Rightarrow> ReadDir_loop yield fd [] 0 0 [])"

declare SkipSpace.simps [simp del]
declare Uint64_loop.simps [simp del]
declare HexUint64_loop.simps [simp del]
declare NumFields_spaces.simps [simp del]
declare NumFields_field.simps [simp del]
declare Name_scan.simps [simp del]

section \<open>Notions that the properties are stated with\<close>

text \<open>The invariant of the scanner state: the cursor lies within the slice.\<close>

definition cursor_ok :: "Bytestring \<Rightarrow> bool" where
  "cursor_ok s = (0 \<le> bs_pos s \<and> bs_pos s \<le> int (length (bs_b s)))"

text \<open>
  The state \<open>s'\<close> after an operation on \<open>s\<close>: it satisfies the invariant, the cursor
  has not moved back, and the slice is the same.
\<close>

definition advances :: "Bytestring \<Rightarrow> Bytestring \<Rightarrow> bool" where
  "advances s s' = (cursor_ok s' \<and> bs_pos s \<le> bs_pos s' \<and> bs_b s' = bs_b s)"

text \<open>
  Digit strings and their values. A decimal digit is one of the bytes \<open>'0'\<close> to
  \<open>'9'\<close>, a hexadecimal digit one of \<open>'0'\<close> to \<open>'9'\<close>, \<open>'a'\<close> to \<open>'f'\<close>, \<open>'A'\<close> to
  \<open>'F'\<close>; the value of a digit string is the number it denotes, leading zeros
  allowed, as an unbounded natural number.
\<close>

definition is_dec_char :: "byte \<Rightarrow> bool" where
  "is_dec_char c = (c \<in> set (ascii ''0123456789''))"

definition dec_char_value :: "byte \<Rightarrow> nat" where
  "dec_char_value c = unat c - 48"

definition dec_value :: "byte list \<Rightarrow> nat" where
  "dec_value ds = foldl (\<lambda>v c. 10 * v + dec_char_value c) 0 ds"

definition is_hex_char :: "byte \<Rightarrow> bool" where
  "is_hex_char c = (c \<in> set (ascii ''0123456789abcdefABCDEF''))"

definition hex_char_value :: "byte \<Rightarrow> nat" where
  "hex_char_value c =
     (if c \<le> 0x39 then unat c - 48 else if c \<le> 0x46 then unat c - 55 else unat c - 87)"

definition hex_value :: "byte list \<Rightarrow> nat" where
  "hex_value ds = foldl (\<lambda>v c. 16 * v + hex_char_value c) 0 ds"

text \<open>
  Formatting: the canonical decimal text of a number, without sign or leading zeros
  (\<open>strconv.FormatUint(n, 10)\<close>, \<open>%d\<close>), and its canonical hexadecimal text, with the
  letters in lower case (\<open>strconv.FormatUint(n, 16)\<close>, \<open>%x\<close>) or in upper case (\<open>%X\<close>).
\<close>

fun FormatUint_dec :: "nat \<Rightarrow> byte list" where
  "FormatUint_dec n =
     (if n < 10 then [of_nat (48 + n)]
      else FormatUint_dec (n div 10) @ [of_nat (48 + n mod 10)])"

definition hex_char :: "bool \<Rightarrow> nat \<Rightarrow> byte" where
  "hex_char upper k =
     (if k < 10 then of_nat (48 + k) else if upper then of_nat (55 + k) else of_nat (87 + k))"

fun FormatUint_hex :: "bool \<Rightarrow> nat \<Rightarrow> byte list" where
  "FormatUint_hex upper n =
     (if n < 16 then [hex_char upper n]
      else FormatUint_hex upper (n div 16) @ [hex_char upper (n mod 16)])"

declare FormatUint_dec.simps [simp del]
declare FormatUint_hex.simps [simp del]

text \<open>
  A well-formed record, on its own: it reaches at least to the start of the name
  field, and its length field holds its length. Its inode and type are the fields at
  their offsets; its name is the bytes from the name field's start up to the first NUL
  byte, or to the end of the record.
\<close>

definition wf_dirent :: "byte list \<Rightarrow> bool" where
  "wf_dirent r =
     (Offsetof_Name \<le> length r \<and> length r < 2 ^ 16
      \<and> NativeEndian_Uint (take Sizeof_Reclen (drop Offsetof_Reclen r)) = of_nat (length r))"

definition dirent_ino :: "byte list \<Rightarrow> uint64" where
  "dirent_ino r = NativeEndian_Uint (take Sizeof_Ino (drop Offsetof_Ino r))"

definition dirent_name :: "byte list \<Rightarrow> byte list" where
  "dirent_name r = takeWhile (\<lambda>c. c \<noteq> 0) (drop Offsetof_Name r)"

definition dirent_type :: "byte list \<Rightarrow> byte" where
  "dirent_type r = r ! Offsetof_Type"

text \<open>
  The records that stand for real entries: the inode is not zero and the name is
  neither \<open>.\<close> nor \<open>..\<close>; and the entry that such a record is yielded as.
\<close>

definition real_entry :: "byte list \<Rightarrow> bool" where
  "real_entry r =
     (dirent_ino r \<noteq> 0 \<and> dirent_name r \<noteq> ascii ''.'' \<and> dirent_name r \<noteq> ascii ''..'')"

definition cooked :: "byte list \<Rightarrow> DirEntry" where
  "cooked r = \<lparr>de_Ino = dirent_ino r, de_Name = dirent_name r, de_Type = dirent_type r\<rparr>"

text \<open>
  A read that delivers well-formed records: at least one record, each well-formed,
  together no more than the buffer holds.
\<close>

definition wf_batch :: "byte list list \<Rightarrow> bool" where
  "wf_batch recs =
     (recs \<noteq> [] \<and> list_all wf_dirent recs \<and> length (concat recs) \<le> readDirBufferSize)"

text \<open>The consumer that never asks the iterator to stop.\<close>

definition all_wanted :: "DirEntry list \<Rightarrow> DirEntry \<Rightarrow> bool" where
  "all_wanted seen e = True"

section \<open>The cursor of the scanner\<close>

lemma advances_refl: "cursor_ok s \<Longrightarrow> advances s s"
  by (simp add: advances_def)

lemma advances_step:
  assumes "cursor_ok s" and "bs_pos s < int (length (bs_b s))"
    and "advances (s\<lparr>bs_pos := bs_pos s + 1\<rparr>) s'"
  shows "advances s s'"
  using assms by (auto simp: advances_def cursor_ok_def)

lemma cursor_ok_step:
  assumes "cursor_ok s" and "bs_pos s < int (length (bs_b s))"
  shows "cursor_ok (s\<lparr>bs_pos := bs_pos s + 1\<rparr>)"
  using assms by (simp add: cursor_ok_def)

lemma SkipSpace_advances: "cursor_ok s \<Longrightarrow> advances s (snd (SkipSpace s))"
proof (induction s rule: SkipSpace.induct)
  case (1 s)
  show ?case
  proof (cases "bs_pos s \<ge> int (length (bs_b s)) \<or> bs_b s ! nat (bs_pos s) \<noteq> 0x20")
    case True
    with 1(2) show ?thesis
      by (subst SkipSpace.simps) (auto simp: advances_refl)
  next
    case False
    then have lt: "bs_pos s < int (length (bs_b s))" by simp
    have "advances (s\<lparr>bs_pos := bs_pos s + 1\<rparr>) (snd (SkipSpace (s\<lparr>bs_pos := bs_pos s + 1\<rparr>)))"
      using False 1 cursor_ok_step [OF 1(2) lt] by simp
    from advances_step [OF 1(2) lt this] False show ?thesis
      by (subst SkipSpace.simps) simp
  qed
qed

lemma Uint64_loop_advances: "cursor_ok s \<Longrightarrow> advances s (snd (Uint64_loop s num ok))"
proof (induction s num ok rule: Uint64_loop.induct)
  case (1 s num ok)
  let ?ch = "bs_b s ! nat (bs_pos s)"
  show ?case
  proof (cases "bs_pos s \<ge> int (length (bs_b s)) \<or> ?ch < 0x30 \<or> ?ch > 0x39 \<or> num \<ge> cutoffDecimalUint64")
    case True
    with 1(2) show ?thesis
      by (subst Uint64_loop.simps) (auto simp: advances_refl)
  next
    case False
    then have lt: "bs_pos s < int (length (bs_b s))" by simp
    have "advances (s\<lparr>bs_pos := bs_pos s + 1\<rparr>)
        (snd (Uint64_loop (s\<lparr>bs_pos := bs_pos s + 1\<rparr>) (num * 10 + ucast (?ch - 0x30)) True))"
      using False 1 cursor_ok_step [OF 1(2) lt] by simp
    from advances_step [OF 1(2) lt this] False show ?thesis
      by (subst Uint64_loop.simps) simp
  qed
qed

lemma HexUint64_loop_advances: "cursor_ok s \<Longrightarrow> advances s (snd (HexUint64_loop s num ok))"
proof (induction s num ok rule: HexUint64_loop.induct)
  case (1 s num ok)
  let ?ch = "bs_b s ! nat (bs_pos s)"
  show ?case
  proof (cases "bs_pos s \<ge> int (length (bs_b s)) \<or> hexdigit ?ch = None \<or> num \<ge> cutoffHexUint64")
    case True
    with 1(2) show ?thesis
      by (subst HexUint64_loop.simps) (auto simp: advances_refl split: option.splits)
  next
    case False
    then have lt: "bs_pos s < int (length (bs_b s))" by simp
    from False obtain digit where digit: "hexdigit ?ch = Some digit" by auto
    have "advances (s\<lparr>bs_pos := bs_pos s + 1\<rparr>)
        (snd (HexUint64_loop (s\<lparr>bs_pos := bs_pos s + 1\<rparr>) (push_bit 4 num + ucast digit) True))"
      using False digit 1 cursor_ok_step [OF 1(2) lt] by simp
    from advances_step [OF 1(2) lt this] False digit show ?thesis
      by (subst HexUint64_loop.simps) simp
  qed
qed

text \<open>
  C8. A scanner made by \<open>NewBytestring\<close> satisfies \<open>0 \<le> cursor \<le> length\<close>, and each
  of \<open>EOL\<close>, \<open>SkipSpace\<close>, \<open>SkipText\<close>, \<open>Next\<close>, \<open>Uint64\<close>, \<open>HexUint64\<close> and
  \<open>NumFields\<close>, run in a state that satisfies it, leaves a state that satisfies it,
  with the cursor not below where it was and the slice unchanged.
\<close>

theorem Bytestring_cursor_invariant:
  assumes "cursor_ok s"
  shows "cursor_ok (NewBytestring bb)
    \<and> advances s (snd (EOL s))
    \<and> advances s (snd (SkipSpace s))
    \<and> advances s (snd (SkipText s t))
    \<and> advances s (snd (Next s))
    \<and> advances s (snd (Uint64 s))
    \<and> advances s (snd (HexUint64 s))
    \<and> advances s (snd (NumFields s))"
proof -
  have "cursor_ok (NewBytestring bb)"
    by (simp add: NewBytestring_def cursor_ok_def)
  moreover have "advances s (snd (EOL s))"
    using assms by (simp add: EOL_def advances_refl)
  moreover have "advances s (snd (SkipText s t))"
    using assms by (simp add: SkipText_def advances_def cursor_ok_def)
  moreover have "advances s (snd (Next s))"
    using assms by (simp add: Next_def advances_def cursor_ok_def)
  moreover have "advances s (snd (NumFields s))"
    using assms by (simp add: NumFields_def advances_refl)
  ultimately show ?thesis
    using assms SkipSpace_advances Uint64_loop_advances HexUint64_loop_advances
    by (simp add: Uint64_def HexUint64_def)
qed

theorem Bytestring_cursor_invariant_witness:
  "cursor_ok \<lparr>bs_b = ascii ''7 f'', bs_pos = 1\<rparr>
    \<and> cursor_ok (NewBytestring (ascii ''7 f''))
    \<and> advances \<lparr>bs_b = ascii ''7 f'', bs_pos = 1\<rparr> (snd (SkipSpace \<lparr>bs_b = ascii ''7 f'', bs_pos = 1\<rparr>))
    \<and> snd (SkipSpace \<lparr>bs_b = ascii ''7 f'', bs_pos = 1\<rparr>) = \<lparr>bs_b = ascii ''7 f'', bs_pos = 2\<rparr>"
proof -
  have h: "cursor_ok \<lparr>bs_b = ascii ''7 f'', bs_pos = 1\<rparr>"
    by (simp add: cursor_ok_def ascii_def)
  have "snd (SkipSpace \<lparr>bs_b = ascii ''7 f'', bs_pos = 1\<rparr>) = \<lparr>bs_b = ascii ''7 f'', bs_pos = 2\<rparr>"
    by code_simp
  with h Bytestring_cursor_invariant [OF h, of "ascii ''7 f''" "[]"] show ?thesis
    by simp
qed

text \<open>
  C9. \<open>SkipText\<close> succeeds only if the bytes at the cursor are the text in full, and
  then the cursor is past the text; when it fails the state is unchanged; and it fails
  whenever the bytes at the cursor differ from the text or fewer bytes than the text
  has remain.
\<close>

theorem SkipText_exact:
  assumes "cursor_ok s" and "SkipText s t = (ok, s')"
  shows "(ok \<longrightarrow> take (length t) (drop (nat (bs_pos s)) (bs_b s)) = t
              \<and> bs_pos s + int (length t) \<le> int (length (bs_b s))
              \<and> s' = s\<lparr>bs_pos := bs_pos s + int (length t)\<rparr>)
       \<and> (\<not> ok \<longrightarrow> s' = s)
       \<and> (take (length t) (drop (nat (bs_pos s)) (bs_b s)) \<noteq> t
            \<or> bs_pos s + int (length t) > int (length (bs_b s)) \<longrightarrow> \<not> ok)"
  using assms by (auto simp: SkipText_def split: if_splits)

theorem SkipText_exact_witness:
  "cursor_ok \<lparr>bs_b = ascii ''foobar'', bs_pos = 3\<rparr>
    \<and> SkipText \<lparr>bs_b = ascii ''foobar'', bs_pos = 3\<rparr> (ascii ''bar'')
        = (True, \<lparr>bs_b = ascii ''foobar'', bs_pos = 6\<rparr>)
    \<and> take 3 (drop 3 (ascii ''foobar'')) = ascii ''bar''"
proof -
  have h: "cursor_ok \<lparr>bs_b = ascii ''foobar'', bs_pos = 3\<rparr>"
    by (simp add: cursor_ok_def ascii_def)
  have run: "SkipText \<lparr>bs_b = ascii ''foobar'', bs_pos = 3\<rparr> (ascii ''bar'')
      = (True, \<lparr>bs_b = ascii ''foobar'', bs_pos = 6\<rparr>)"
    by (simp add: SkipText_def ascii_def)
  from h run SkipText_exact [OF h run] show ?thesis
    by (simp add: ascii_def)
qed

section \<open>Parsing digit strings\<close>

lemma foldl_horner_ge_start:
  fixes g :: "'a \<Rightarrow> nat"
  assumes "0 < k"
  shows "a \<le> foldl (\<lambda>v c. k * v + g c) a ds"
proof (induction ds arbitrary: a)
  case Nil
  show ?case by simp
next
  case (Cons c cs)
  have "a \<le> k * a"
    using assms by (cases k) simp_all
  then have "a \<le> k * a + g c"
    by (rule trans_le_add1)
  also have "\<dots> \<le> foldl (\<lambda>v c. k * v + g c) (k * a + g c) cs"
    by (rule Cons.IH)
  finally show ?case by simp
qed

lemma hexdigit_hex_char:
  assumes "is_hex_char c"
  shows "hexdigit c = Some (of_nat (hex_char_value c)) \<and> hex_char_value c < 16"
proof -
  from assms have "c \<in> {48, 49, 50, 51, 52, 53, 54, 55, 56, 57, 97, 98, 99, 100, 101, 102, 65, 66, 67, 68, 69, 70}"
    by (simp add: is_hex_char_def ascii_def)
  then show ?thesis
    by (elim insertE emptyE) (simp_all add: hexdigit_def hex_char_value_def)
qed

lemma dec_char_range:
  assumes "is_dec_char c"
  shows "\<not> (c < 0x30 \<or> c > 0x39) \<and> c - 0x30 = of_nat (dec_char_value c) \<and> dec_char_value c < 10"
proof -
  from assms have "c \<in> {48, 49, 50, 51, 52, 53, 54, 55, 56, 57}"
    by (simp add: is_dec_char_def ascii_def)
  then show ?thesis
    by (elim insertE emptyE) (simp_all add: dec_char_value_def)
qed


lemma HexUint64_loop_end:
  "HexUint64_loop \<lparr>bs_b = pre, bs_pos = int (length pre)\<rparr> num ok
     = ((if ok then num else 0, ok), \<lparr>bs_b = pre, bs_pos = int (length pre)\<rparr>)"
  by (subst HexUint64_loop.simps) simp

lemma HexUint64_loop_overflow:
  assumes "is_hex_char c" and "2 ^ 60 \<le> unat num"
  shows "HexUint64_loop \<lparr>bs_b = pre @ c # cs, bs_pos = int (length pre)\<rparr> num ok
     = ((0, False), \<lparr>bs_b = pre @ c # cs, bs_pos = int (length pre)\<rparr>)"
proof -
  have "cutoffHexUint64 \<le> num"
    using assms(2) by (simp add: cutoffHexUint64_def word_le_nat_alt)
  then show ?thesis
    using hexdigit_hex_char [OF assms(1)]
    by (subst HexUint64_loop.simps) simp
qed

lemma HexUint64_loop_step:
  assumes "is_hex_char c" and "unat num < 2 ^ 60"
  shows "HexUint64_loop \<lparr>bs_b = pre @ c # cs, bs_pos = int (length pre)\<rparr> num ok
     = HexUint64_loop \<lparr>bs_b = (pre @ [c]) @ cs, bs_pos = int (length (pre @ [c]))\<rparr>
         (of_nat (16 * unat num + hex_char_value c)) True"
proof -
  have "\<not> cutoffHexUint64 \<le> num"
    using assms(2) by (simp add: cutoffHexUint64_def word_le_nat_alt)
  moreover have "ucast (of_nat (hex_char_value c) :: byte) = (of_nat (hex_char_value c) :: uint64)"
    using hexdigit_hex_char [OF assms(1)]
    by (simp add: unsigned_of_nat take_bit_nat_eq_self)
  moreover have "push_bit 4 num + (of_nat (hex_char_value c) :: uint64)
      = of_nat (16 * unat num + hex_char_value c)"
    by (simp add: push_bit_eq_mult)
  ultimately show ?thesis
    using hexdigit_hex_char [OF assms(1)]
    by (subst HexUint64_loop.simps) (simp add: ac_simps)
qed


lemma unat_of_nat_64: "n < 2 ^ 64 \<Longrightarrow> unat (of_nat n :: uint64) = n"
  by (simp add: unsigned_of_nat take_bit_nat_eq_self)

lemma HexUint64_loop_in_range:
  assumes "\<forall>c\<in>set ds. is_hex_char c"
    and "foldl (\<lambda>v c. 16 * v + hex_char_value c) (unat num) ds < 2 ^ 64"
  shows "HexUint64_loop \<lparr>bs_b = pre @ ds, bs_pos = int (length pre)\<rparr> num ok
     = ((if ok \<or> ds \<noteq> []
         then of_nat (foldl (\<lambda>v c. 16 * v + hex_char_value c) (unat num) ds) else 0,
         ok \<or> ds \<noteq> []),
        \<lparr>bs_b = pre @ ds, bs_pos = int (length (pre @ ds))\<rparr>)"
  using assms
proof (induction ds arbitrary: pre num ok)
  case Nil
  show ?case
    using HexUint64_loop_end [of pre num ok] by simp
next
  case (Cons c cs)
  let ?f = "\<lambda>v c. 16 * v + hex_char_value c"
  have c: "is_hex_char c" and cs: "\<forall>c\<in>set cs. is_hex_char c"
    using Cons.prems(1) by simp_all
  have "16 * unat num + hex_char_value c \<le> foldl ?f (16 * unat num + hex_char_value c) cs"
    by (rule foldl_horner_ge_start) simp
  with Cons.prems(2) have small: "16 * unat num + hex_char_value c < 2 ^ 64"
    by simp
  then have num: "unat num < 2 ^ 60"
    by simp
  define num' :: uint64 where "num' = of_nat (16 * unat num + hex_char_value c)"
  have next_num: "unat num' = 16 * unat num + hex_char_value c"
    unfolding num'_def using small by (rule unat_of_nat_64)
  have step: "HexUint64_loop \<lparr>bs_b = pre @ c # cs, bs_pos = int (length pre)\<rparr> num ok
      = HexUint64_loop \<lparr>bs_b = (pre @ [c]) @ cs, bs_pos = int (length (pre @ [c]))\<rparr> num' True"
    unfolding num'_def by (rule HexUint64_loop_step [OF c num])
  have "foldl ?f (unat num') cs < 2 ^ 64"
    using Cons.prems(2) by (simp add: next_num)
  from Cons.IH [OF cs this, of "pre @ [c]" True] show ?case
    by (simp add: step next_num)
qed

lemma HexUint64_loop_out_of_range:
  assumes "\<forall>c\<in>set ds. is_hex_char c"
    and "2 ^ 64 \<le> foldl (\<lambda>v c. 16 * v + hex_char_value c) (unat num) ds"
  shows "fst (HexUint64_loop \<lparr>bs_b = pre @ ds, bs_pos = int (length pre)\<rparr> num ok) = (0, False)"
  using assms
proof (induction ds arbitrary: pre num ok)
  case Nil
  have "unat num < 2 ^ 64"
    using unsigned_less [of num] by simp
  with Nil.prems(2) show ?case by simp
next
  case (Cons c cs)
  let ?f = "\<lambda>v c. 16 * v + hex_char_value c"
  have c: "is_hex_char c" and cs: "\<forall>c\<in>set cs. is_hex_char c"
    using Cons.prems(1) by simp_all
  show ?case
  proof (cases "unat num < 2 ^ 60")
    case False
    then show ?thesis
      by (simp add: HexUint64_loop_overflow [OF c])
  next
    case True
    have "hex_char_value c < 16"
      using hexdigit_hex_char [OF c] by simp
    with True have "16 * unat num + hex_char_value c < 2 ^ 64"
      by simp
    then have small: "16 * unat num + hex_char_value c < 2 ^ 64" .
    define num' :: uint64 where "num' = of_nat (16 * unat num + hex_char_value c)"
    have next_num: "unat num' = 16 * unat num + hex_char_value c"
      unfolding num'_def using small by (rule unat_of_nat_64)
    have step: "HexUint64_loop \<lparr>bs_b = pre @ c # cs, bs_pos = int (length pre)\<rparr> num ok
        = HexUint64_loop \<lparr>bs_b = (pre @ [c]) @ cs, bs_pos = int (length (pre @ [c]))\<rparr> num' True"
      unfolding num'_def by (rule HexUint64_loop_step [OF c True])
    have "2 ^ 64 \<le> foldl ?f (unat num') cs"
      using Cons.prems(2) by (simp add: next_num)
    from Cons.IH [OF cs this, of "pre @ [c]" True] show ?thesis
      by (simp add: step)
  qed
qed

text \<open>
  C5. On a slice that is a non-empty string of hexadecimal digits, \<open>HexUint64\<close> with
  its cutoff of \<open>2 ^ 60\<close> succeeds with the value of the string, untruncated, when that
  value is at most \<open>2 ^ 64 - 1\<close> (leading zeros included), and fails with zero when
  the value is larger.
\<close>

theorem HexUint64_exact_range:
  assumes "ds \<noteq> []" and "\<forall>c\<in>set ds. is_hex_char c"
  shows "(hex_value ds \<le> 2 ^ 64 - 1 \<longrightarrow>
            (\<exists>v. fst (HexUint64 (NewBytestring ds)) = (v, True) \<and> unat v = hex_value ds))
       \<and> (hex_value ds > 2 ^ 64 - 1 \<longrightarrow> fst (HexUint64 (NewBytestring ds)) = (0, False))"
proof (intro conjI impI)
  assume "hex_value ds \<le> 2 ^ 64 - 1"
  then have small: "hex_value ds < 2 ^ 64"
    by simp
  then have "foldl (\<lambda>v c. 16 * v + hex_char_value c) (unat (0 :: uint64)) ds < 2 ^ 64"
    by (simp add: hex_value_def)
  from HexUint64_loop_in_range [OF assms(2) this, of "[]" False] assms(1)
  have "fst (HexUint64 (NewBytestring ds)) = (of_nat (hex_value ds), True)"
    by (simp add: HexUint64_def NewBytestring_def hex_value_def)
  with unat_of_nat_64 [OF small]
  show "\<exists>v. fst (HexUint64 (NewBytestring ds)) = (v, True) \<and> unat v = hex_value ds"
    by simp
next
  assume "hex_value ds > 2 ^ 64 - 1"
  then have "2 ^ 64 \<le> foldl (\<lambda>v c. 16 * v + hex_char_value c) (unat (0 :: uint64)) ds"
    by (simp add: hex_value_def)
  from HexUint64_loop_out_of_range [OF assms(2) this, of "[]" False]
  show "fst (HexUint64 (NewBytestring ds)) = (0, False)"
    by (simp add: HexUint64_def NewBytestring_def)
qed


theorem HexUint64_exact_range_witness:
  "ascii ''00ffffffffffffffff'' \<noteq> []
   \<and> list_all is_hex_char (ascii ''00ffffffffffffffff'')
   \<and> hex_value (ascii ''00ffffffffffffffff'') = 2 ^ 64 - 1
   \<and> (\<exists>v. fst (HexUint64 (NewBytestring (ascii ''00ffffffffffffffff''))) = (v, True)
          \<and> unat v = 2 ^ 64 - 1)
   \<and> list_all is_hex_char (ascii ''10000000000000000'')
   \<and> hex_value (ascii ''10000000000000000'') = 2 ^ 64
   \<and> fst (HexUint64 (NewBytestring (ascii ''10000000000000000''))) = (0, False)"
proof -
  have ne: "ascii ''00ffffffffffffffff'' \<noteq> []" "ascii ''10000000000000000'' \<noteq> []"
    by (simp_all add: ascii_def)
  have hex1: "\<forall>c\<in>set (ascii ''00ffffffffffffffff''). is_hex_char c"
    by (simp add: is_hex_char_def ascii_def)
  have hex2: "\<forall>c\<in>set (ascii ''10000000000000000''). is_hex_char c"
    by (simp add: is_hex_char_def ascii_def)
  have v1: "hex_value (ascii ''00ffffffffffffffff'') = 2 ^ 64 - 1"
    by (simp add: hex_value_def hex_char_value_def ascii_def)
  have v2: "hex_value (ascii ''10000000000000000'') = 2 ^ 64"
    by (simp add: hex_value_def hex_char_value_def ascii_def)
  from HexUint64_exact_range [OF ne(1) hex1] HexUint64_exact_range [OF ne(2) hex2]
  show ?thesis
    using ne hex1 hex2 by (simp add: v1 v2 list_all_iff)
qed

lemma Uint64_loop_end:
  "Uint64_loop \<lparr>bs_b = pre, bs_pos = int (length pre)\<rparr> num ok
     = ((if ok then num else 0, ok), \<lparr>bs_b = pre, bs_pos = int (length pre)\<rparr>)"
  by (subst Uint64_loop.simps) simp

lemma Uint64_loop_step:
  assumes "is_dec_char c" and "unat num \<le> 1844674407370955161"
  shows "Uint64_loop \<lparr>bs_b = pre @ c # cs, bs_pos = int (length pre)\<rparr> num ok
     = Uint64_loop \<lparr>bs_b = (pre @ [c]) @ cs, bs_pos = int (length (pre @ [c]))\<rparr>
         (of_nat (10 * unat num + dec_char_value c)) True"
proof -
  have "\<not> cutoffDecimalUint64 \<le> num"
    using assms(2) by (simp add: cutoffDecimalUint64_def word_le_nat_alt)
  moreover have "ucast (c - 0x30) = (of_nat (dec_char_value c) :: uint64)"
    using dec_char_range [OF assms(1)]
    by (simp add: unsigned_of_nat take_bit_nat_eq_self)
  moreover have "num * 10 + (of_nat (dec_char_value c) :: uint64)
      = of_nat (10 * unat num + dec_char_value c)"
    by simp
  ultimately show ?thesis
    using dec_char_range [OF assms(1)]
    by (subst Uint64_loop.simps) (simp add: ac_simps)
qed

lemma Uint64_loop_in_range:
  assumes "\<forall>c\<in>set ds. is_dec_char c"
    and "foldl (\<lambda>v c. 10 * v + dec_char_value c) (unat num) ds < 2 ^ 64"
  shows "Uint64_loop \<lparr>bs_b = pre @ ds, bs_pos = int (length pre)\<rparr> num ok
     = ((if ok \<or> ds \<noteq> []
         then of_nat (foldl (\<lambda>v c. 10 * v + dec_char_value c) (unat num) ds) else 0,
         ok \<or> ds \<noteq> []),
        \<lparr>bs_b = pre @ ds, bs_pos = int (length (pre @ ds))\<rparr>)"
  using assms
proof (induction ds arbitrary: pre num ok)
  case Nil
  show ?case
    using Uint64_loop_end [of pre num ok] by simp
next
  case (Cons c cs)
  let ?f = "\<lambda>v c. 10 * v + dec_char_value c"
  have c: "is_dec_char c" and cs: "\<forall>c\<in>set cs. is_dec_char c"
    using Cons.prems(1) by simp_all
  have "10 * unat num + dec_char_value c \<le> foldl ?f (10 * unat num + dec_char_value c) cs"
    by (rule foldl_horner_ge_start) simp
  with Cons.prems(2) have small: "10 * unat num + dec_char_value c < 2 ^ 64"
    by simp
  then have num: "unat num \<le> 1844674407370955161"
    by simp
  define num' :: uint64 where "num' = of_nat (10 * unat num + dec_char_value c)"
  have next_num: "unat num' = 10 * unat num + dec_char_value c"
    unfolding num'_def using small by (rule unat_of_nat_64)
  have step: "Uint64_loop \<lparr>bs_b = pre @ c # cs, bs_pos = int (length pre)\<rparr> num ok
      = Uint64_loop \<lparr>bs_b = (pre @ [c]) @ cs, bs_pos = int (length (pre @ [c]))\<rparr> num' True"
    unfolding num'_def by (rule Uint64_loop_step [OF c num])
  have "foldl ?f (unat num') cs < 2 ^ 64"
    using Cons.prems(2) by (simp add: next_num)
  from Cons.IH [OF cs this, of "pre @ [c]" True] show ?case
    by (simp add: step next_num)
qed

lemma dec_digit_char:
  assumes "k < 10"
  shows "is_dec_char (of_nat (48 + k)) \<and> dec_char_value (of_nat (48 + k)) = k"
proof -
  from assms have "k \<in> {0, 1, 2, 3, 4, 5, 6, 7, 8, 9}"
    by simp arith
  then show ?thesis
    by (elim insertE emptyE) (simp_all add: is_dec_char_def ascii_def dec_char_value_def)
qed

lemma hex_digit_char:
  assumes "k < 16"
  shows "is_hex_char (hex_char upper k) \<and> hex_char_value (hex_char upper k) = k"
proof -
  from assms have "k \<in> {0, 1, 2, 3, 4, 5, 6, 7, 8, 9, 10, 11, 12, 13, 14, 15}"
    by simp arith
  then show ?thesis
    by (elim insertE emptyE)
      (simp_all add: is_hex_char_def ascii_def hex_char_value_def hex_char_def)
qed

lemma FormatUint_dec_digits:
  "FormatUint_dec n \<noteq> [] \<and> (\<forall>c\<in>set (FormatUint_dec n). is_dec_char c)
     \<and> dec_value (FormatUint_dec n) = n"
proof (induction n rule: FormatUint_dec.induct)
  case (1 n)
  show ?case
  proof (cases "n < 10")
    case True
    with dec_digit_char [OF True] show ?thesis
      by (subst (1 2 3) FormatUint_dec.simps) (simp add: dec_value_def)
  next
    case False
    have "n mod 10 < 10" by simp
    from dec_digit_char [OF this] 1 [OF False] False show ?thesis
      by (subst (1 2 3) FormatUint_dec.simps) (simp add: dec_value_def)
  qed
qed

lemma FormatUint_hex_digits:
  "FormatUint_hex upper n \<noteq> [] \<and> (\<forall>c\<in>set (FormatUint_hex upper n). is_hex_char c)
     \<and> hex_value (FormatUint_hex upper n) = n"
proof (induction upper n rule: FormatUint_hex.induct)
  case (1 upper n)
  show ?case
  proof (cases "n < 16")
    case True
    with hex_digit_char [OF True, of upper] show ?thesis
      by (subst (1 2 3) FormatUint_hex.simps) (simp add: hex_value_def)
  next
    case False
    have "n mod 16 < 16" by simp
    from hex_digit_char [OF this, of upper] 1 [OF False] False show ?thesis
      by (subst (1 2 3) FormatUint_hex.simps) (simp add: hex_value_def)
  qed
qed

text \<open>
  C6. For every 64-bit unsigned \<open>n\<close>, \<open>Uint64\<close> on the canonical decimal text of \<open>n\<close>
  and \<open>HexUint64\<close> on its canonical hexadecimal text (in either case of the letters)
  return \<open>n\<close> and true, with the cursor at the end of the text.
\<close>

theorem parse_inverts_format:
  "Uint64 (NewBytestring (FormatUint_dec (unat n)))
     = ((n, True), \<lparr>bs_b = FormatUint_dec (unat n),
                     bs_pos = int (length (FormatUint_dec (unat n)))\<rparr>)
   \<and> HexUint64 (NewBytestring (FormatUint_hex upper (unat n)))
     = ((n, True), \<lparr>bs_b = FormatUint_hex upper (unat n),
                     bs_pos = int (length (FormatUint_hex upper (unat n)))\<rparr>)"
proof
  have range: "unat n < 2 ^ 64"
    using unsigned_less [of n] by simp
  let ?ds = "FormatUint_dec (unat n)"
  have "foldl (\<lambda>v c. 10 * v + dec_char_value c) (unat (0 :: uint64)) ?ds < 2 ^ 64"
    using FormatUint_dec_digits [of "unat n"] range by (simp add: dec_value_def)
  from Uint64_loop_in_range [OF _ this, of "[]" False] FormatUint_dec_digits [of "unat n"]
  show "Uint64 (NewBytestring ?ds) = ((n, True), \<lparr>bs_b = ?ds, bs_pos = int (length ?ds)\<rparr>)"
    by (simp add: Uint64_def NewBytestring_def dec_value_def)
  let ?hs = "FormatUint_hex upper (unat n)"
  have "foldl (\<lambda>v c. 16 * v + hex_char_value c) (unat (0 :: uint64)) ?hs < 2 ^ 64"
    using FormatUint_hex_digits [of upper "unat n"] range by (simp add: hex_value_def)
  from HexUint64_loop_in_range [OF _ this, of "[]" False] FormatUint_hex_digits [of upper "unat n"]
  show "HexUint64 (NewBytestring ?hs) = ((n, True), \<lparr>bs_b = ?hs, bs_pos = int (length ?hs)\<rparr>)"
    by (simp add: HexUint64_def NewBytestring_def hex_value_def)
qed

section \<open>Decimal parsing past the 64-bit range\<close>

text \<open>
  C1. The claim: \<open>Uint64\<close> fails, returning zero and false, whenever the digits
  consumed would take the accumulator past the 64-bit unsigned range, so that no
  wrapped value is ever returned with success. The code checks \<open>num >= cutoff\<close>
  before the multiplication only, and \<open>1844674407370955161 * 10 + 6\<close> passes that
  check: on the text of \<open>2 ^ 64\<close> the accumulator wraps to 0 and \<open>Uint64\<close> returns 0
  with \<open>ok = true\<close>, after consuming all twenty digits.
\<close>

theorem Uint64_wraps_at_two_to_64:
  "Uint64 (NewBytestring (ascii ''18446744073709551616'')) =
     ((0, True), \<lparr>bs_b = ascii ''18446744073709551616'', bs_pos = 20\<rparr>)"
  by code_simp

text \<open>
  C7. The claim: \<open>ParseUint\<close> succeeds if and only if the whole slice is a decimal
  number within the 64-bit unsigned range. On the text of \<open>2 ^ 64\<close>, which is out of
  range, the wrap-around of \<open>Uint64\<close> makes \<open>ParseUint\<close> succeed with the value 0.
\<close>

theorem ParseUint_accepts_two_to_64:
  "ParseUint (ascii ''18446744073709551616'') = (0, True)"
  by code_simp

text \<open>
  What \<open>ParseUint\<close> does on the other inputs that the claim names: a string of decimal
  digits whose value is within the range is accepted with its value; trailing junk, no
  digit at all, and the largest value followed by one more digit are rejected.
\<close>

lemma ParseUint_in_range:
  assumes "ds \<noteq> []" and "\<forall>c\<in>set ds. is_dec_char c" and "dec_value ds < 2 ^ 64"
  shows "ParseUint ds = (of_nat (dec_value ds), True)"
proof -
  have "foldl (\<lambda>v c. 10 * v + dec_char_value c) (unat (0 :: uint64)) ds < 2 ^ 64"
    using assms(3) by (simp add: dec_value_def)
  from Uint64_loop_in_range [OF assms(2) this, of "[]" False] assms(1)
  have "Uint64 (newBytestring ds)
      = ((of_nat (dec_value ds), True), \<lparr>bs_b = ds, bs_pos = int (length ds)\<rparr>)"
    by (simp add: Uint64_def newBytestring_def dec_value_def)
  then show ?thesis
    by (simp add: ParseUint_def EOL_def)
qed

lemma ParseUint_examples:
  "ParseUint (ascii ''42'') = (42, True)"
  "ParseUint (ascii ''42DO'' @ [0x27] @ ascii ''H!'') = (0, False)"
  "ParseUint (ascii ''DO'' @ [0x27] @ ascii ''H!'') = (0, False)"
  "ParseUint (ascii ''184467440737095516150'') = (0, False)"
  "ParseUint [] = (0, False)"
  by code_simp+

section \<open>The name of a record\<close>

lemma unat_inc_below:
  fixes pos lim :: uint64
  assumes "pos < lim"
  shows "unat (pos + 1) = Suc (unat pos)"
proof -
  from assms have "unat pos < unat lim"
    by (simp add: word_less_nat_alt)
  moreover have "unat lim < 2 ^ 64"
    using unsigned_less [of lim] by simp
  ultimately have "unat pos + 1 < 2 ^ 64"
    by linarith
  then show ?thesis
    by (simp add: unat_word_ariths)
qed

lemma Name_scan_takeWhile:
  assumes "nameoffset \<le> pos" and "pos \<le> lim" and "unat lim \<le> length d"
  shows "Name_scan d nameoffset lim pos
     = Return (Some (unat nameoffset,
         unat pos + length (takeWhile (\<lambda>c. c \<noteq> 0) (take (unat lim - unat pos) (drop (unat pos) d)))))"
  using assms
proof (induction d nameoffset lim pos rule: Name_scan.induct)
  case (1 d nameoffset lim pos)
  show ?case
  proof (cases "pos < lim")
    case False
    with 1(3) have "pos = lim" by simp
    with 1(2,4) show ?thesis
      by (subst Name_scan.simps) (simp add: subslice_def)
  next
    case True
    then have below: "unat pos < unat lim"
      by (simp add: word_less_nat_alt)
    with 1(4) have inside: "unat pos < length d"
      by simp
    have suc: "unat (pos + 1) = Suc (unat pos)"
      using True by (rule unat_inc_below)
    obtain k where k: "unat lim - unat pos = Suc k"
      using below by (cases "unat lim - unat pos") simp_all
    have k': "unat lim - Suc (unat pos) = k"
      using k by simp
    have region: "take (unat lim - unat pos) (drop (unat pos) d)
        = d ! unat pos # take (unat lim - Suc (unat pos)) (drop (Suc (unat pos)) d)"
      using inside by (simp add: k k' Cons_nth_drop_Suc [symmetric])
    show ?thesis
    proof (cases "d ! unat pos = 0")
      case zero: True
      with True inside 1(2) show ?thesis
        by (subst Name_scan.simps) (simp add: subslice_def region)
    next
      case nonzero: False
      have "nameoffset \<le> pos + 1"
        using 1(2) suc by (simp add: word_le_nat_alt)
      moreover have "pos + 1 \<le> lim"
        using below suc by (simp add: word_le_nat_alt)
      ultimately have "Name_scan d nameoffset lim (pos + 1)
          = Return (Some (unat nameoffset, unat (pos + 1)
              + length (takeWhile (\<lambda>c. c \<noteq> 0)
                  (take (unat lim - unat (pos + 1)) (drop (unat (pos + 1)) d)))))"
        using 1(1) True inside nonzero 1(4) by simp
      with True inside nonzero show ?thesis
        by (subst Name_scan.simps) (simp add: region suc)
    qed
  qed
qed

lemma Name_declared_region:
  assumes "length d < 2 ^ 63" and "Len d = (dentryLen, True)"
    and "Offsetof_Name \<le> unat dentryLen" and "unat dentryLen \<le> length d"
  shows "Name d = Return (Some (Offsetof_Name, Offsetof_Name
      + length (takeWhile (\<lambda>c. c \<noteq> 0) (take (unat dentryLen - Offsetof_Name) (drop Offsetof_Name d)))))"
proof -
  let ?no = "of_nat Offsetof_Name :: uint64"
  have no: "unat ?no = Offsetof_Name"
    by (simp add: Offsetof_Name_def)
  have lim: "?no + (dentryLen - ?no) = dentryLen"
    by simp
  have "unat (of_nat (length d) :: uint64) = length d"
    using assms(1) by (intro unat_of_nat_64) simp
  with assms(4) have fits: "\<not> dentryLen > of_nat (length d)"
    by (simp add: word_less_nat_alt)
  have "?no \<le> dentryLen"
    using assms(3) no by (simp add: word_le_nat_alt)
  from Name_scan_takeWhile [OF order_refl this assms(4)] fits assms(2) show ?thesis
    by (simp add: Name_def lim no)
qed

lemma span_bytes_takeWhile:
  "span_bytes d (n, n + length (takeWhile P (take k (drop n d)))) = takeWhile P (take k (drop n d))"
proof -
  let ?nm = "takeWhile P (take k (drop n d))"
  have "length ?nm \<le> length (take k (drop n d))"
    by (rule length_takeWhile_le)
  then have le: "length ?nm \<le> k"
    by simp
  have "?nm = take (length ?nm) (take k (drop n d))"
    by (rule takeWhile_eq_take)
  also have "\<dots> = take (length ?nm) (drop n d)"
    using le by (simp add: min_absorb1)
  finally show ?thesis
    by (simp add: span_bytes_def)
qed

lemma Len_prefix:
  assumes "18 \<le> n"
  shows "Len (take n d) = Len d"
proof -
  have "take 2 (drop 16 (take n d)) = take 2 (drop 16 d)"
    using assms by (simp add: drop_take min_absorb1)
  with assms show ?thesis
    by (auto simp: Len_def readUint_def Offsetof_Reclen_def Sizeof_Reclen_def)
qed

text \<open>
  C10. On a slice whose record length decodes and lies between the offset of the name
  field and the length of the slice, \<open>Name\<close> succeeds with a span that starts at the
  name field and ends within the declared record; its bytes are those of the declared
  name region up to, and excluding, its first NUL byte, or the whole region when it
  has none. No byte past the declared record has any influence: any other slice with
  the same first \<open>dentryLen\<close> bytes gives the same result.
\<close>

theorem Name_within_declared_region:
  assumes "length d < 2 ^ 63" and "Len d = (dentryLen, True)"
    and "Offsetof_Name \<le> unat dentryLen" and "unat dentryLen \<le> length d"
  shows "\<exists>hi. Name d = Return (Some (Offsetof_Name, hi))
      \<and> hi \<le> unat dentryLen
      \<and> span_bytes d (Offsetof_Name, hi)
          = takeWhile (\<lambda>c. c \<noteq> 0) (take (unat dentryLen - Offsetof_Name) (drop Offsetof_Name d))
      \<and> (\<forall>d'. length d' < 2 ^ 63 \<and> take (unat dentryLen) d' = take (unat dentryLen) d
            \<longrightarrow> Name d' = Name d)"
proof -
  let ?n = "unat dentryLen"
  let ?region = "\<lambda>d. take (?n - Offsetof_Name) (drop Offsetof_Name d)"
  let ?nm = "takeWhile (\<lambda>c. c \<noteq> 0) (?region d)"
  have name: "Name d = Return (Some (Offsetof_Name, Offsetof_Name + length ?nm))"
    using assms by (rule Name_declared_region)
  have "length ?nm \<le> length (?region d)"
    by (rule length_takeWhile_le)
  then have "length ?nm \<le> ?n - Offsetof_Name"
    by simp
  with assms(3) have bound: "Offsetof_Name + length ?nm \<le> ?n"
    by linarith
  have same: "Name d' = Name d"
    if short: "length d' < 2 ^ 63" and eq: "take ?n d' = take ?n d" for d'
  proof -
    have n18: "18 \<le> ?n"
      using assms(3) by (simp add: Offsetof_Name_def)
    have "length (take ?n d') = length (take ?n d)"
      using eq by simp
    with assms(4) have long: "?n \<le> length d'"
      by simp
    have "Len d' = Len (take ?n d')"
      using n18 by (simp add: Len_prefix)
    also have "\<dots> = Len d"
      using n18 by (simp add: eq Len_prefix)
    finally have len: "Len d' = (dentryLen, True)"
      using assms(2) by simp
    have "?region d' = drop Offsetof_Name (take ?n d')"
      by (simp add: drop_take)
    also have "\<dots> = ?region d"
      by (simp add: eq drop_take)
    finally have "?region d' = ?region d" .
    with Name_declared_region [OF short len assms(3) long] name show ?thesis
      by simp
  qed
  from name bound same span_bytes_takeWhile [of d Offsetof_Name "\<lambda>c. c \<noteq> 0" "?n - Offsetof_Name"]
  show ?thesis
    by blast
qed

theorem Name_within_declared_region_witness:
  "Len ([5, 0, 0, 0, 0, 0, 0, 0, 0, 0, 0, 0, 0, 0, 0, 0, 24, 0, 8] @ ascii ''foo'' @ [0, 0x78, 0x79])
     = (24, True)
   \<and> (\<exists>hi. Name ([5, 0, 0, 0, 0, 0, 0, 0, 0, 0, 0, 0, 0, 0, 0, 0, 24, 0, 8]
                    @ ascii ''foo'' @ [0, 0x78, 0x79])
              = Return (Some (Offsetof_Name, hi))
          \<and> hi \<le> 24
          \<and> span_bytes ([5, 0, 0, 0, 0, 0, 0, 0, 0, 0, 0, 0, 0, 0, 0, 0, 24, 0, 8]
                          @ ascii ''foo'' @ [0, 0x78, 0x79]) (Offsetof_Name, hi)
              = ascii ''foo''
          \<and> Name ([5, 0, 0, 0, 0, 0, 0, 0, 0, 0, 0, 0, 0, 0, 0, 0, 24, 0, 8]
                    @ ascii ''foo'' @ [0, 0x78, 0x31, 0x32])
              = Name ([5, 0, 0, 0, 0, 0, 0, 0, 0, 0, 0, 0, 0, 0, 0, 0, 24, 0, 8]
                    @ ascii ''foo'' @ [0, 0x78, 0x79]))"
proof -
  let ?d = "[5, 0, 0, 0, 0, 0, 0, 0, 0, 0, 0, 0, 0, 0, 0, 0, 24, 0, 8]
    @ ascii ''foo'' @ [0, 0x78, 0x79 :: byte]"
  let ?d' = "[5, 0, 0, 0, 0, 0, 0, 0, 0, 0, 0, 0, 0, 0, 0, 0, 24, 0, 8]
    @ ascii ''foo'' @ [0, 0x78, 0x31, 0x32 :: byte]"
  have short: "length ?d < 2 ^ 63"
    by (simp add: ascii_def)
  have len: "Len ?d = (24, True)"
    by (simp add: Len_def readUint_def Offsetof_Reclen_def Sizeof_Reclen_def ascii_def)
  have lo: "Offsetof_Name \<le> unat (24 :: uint64)"
    by (simp add: Offsetof_Name_def)
  have hi: "unat (24 :: uint64) \<le> length ?d"
    by (simp add: ascii_def)
  from Name_within_declared_region [OF short len lo hi]
  obtain hi where name: "Name ?d = Return (Some (Offsetof_Name, hi))"
    and bound: "hi \<le> unat (24 :: uint64)"
    and bytes: "span_bytes ?d (Offsetof_Name, hi)
        = takeWhile (\<lambda>c. c \<noteq> 0) (take (unat (24 :: uint64) - Offsetof_Name) (drop Offsetof_Name ?d))"
    and same: "\<And>d'. length d' < 2 ^ 63 \<and> take (unat (24 :: uint64)) d' = take (unat (24 :: uint64)) ?d
        \<Longrightarrow> Name d' = Name ?d"
    by blast
  have "takeWhile (\<lambda>c. c \<noteq> 0) (take (unat (24 :: uint64) - Offsetof_Name) (drop Offsetof_Name ?d))
      = ascii ''foo''"
    by (simp add: Offsetof_Name_def ascii_def)
  with bytes have bytes': "span_bytes ?d (Offsetof_Name, hi) = ascii ''foo''"
    by simp
  have "Name ?d' = Name ?d"
    by (rule same) (simp add: ascii_def)
  with len name bound bytes' show ?thesis
    by auto
qed

section \<open>Records whose length field is below the offset of the name\<close>

lemma Len_zero_Name_Panic:
  assumes "Len d = (0, True)"
  shows "Name d = Panic"
  using assms
  by (simp add: Name_def Offsetof_Name_def Name_scan.simps subslice_def)

lemma Len_ok_Ino_ok:
  assumes "Len d = (v, True)"
  shows "snd (Ino d)"
  using assms
  by (auto simp: Len_def Ino_def readUint_def Offsetof_Reclen_def Sizeof_Reclen_def
      Offsetof_Ino_def Sizeof_Ino_def split: if_splits)

text \<open>
  C3. The claim: for every byte slice \<open>Name\<close> returns failure or a span inside the
  slice, and never panics. With a record length below the offset of the name field,
  \<open>namelen\<close> wraps around, \<open>nameoffset+namelen\<close> wraps back to the record length and
  passes the bounds check, the loop does not run, and the final slice expression
  \<open>d[nameoffset:nameoffset+namelen]\<close> has its low index above its high index: on 24
  zero bytes it is \<open>d[19:0]\<close>, a panic.
\<close>

theorem Name_panics_on_zero_reclen:
  "Name (replicate 24 0) = Panic"
  by code_simp

text \<open>
  The panic happens exactly then: the length field decodes to a value below the
  offset of the name field that does not exceed the length of the slice.
\<close>

lemma Name_scan_empty_range:
  assumes "\<not> nameoffset \<le> lim"
  shows "Name_scan d nameoffset lim nameoffset = Panic"
proof -
  from assms have "\<not> nameoffset < lim"
    by simp
  with assms show ?thesis
    by (subst Name_scan.simps) (simp add: subslice_def)
qed

lemma Name_Panic_iff:
  assumes "length d < 2 ^ 63"
  shows "Name d = Panic
     \<longleftrightarrow> (\<exists>l. Len d = (l, True) \<and> unat l < Offsetof_Name \<and> unat l \<le> length d)"
proof (cases "Len d")
  case (Pair l ok)
  let ?no = "of_nat Offsetof_Name :: uint64"
  have no: "unat ?no = Offsetof_Name"
    by (simp add: Offsetof_Name_def)
  have lim: "?no + (l - ?no) = l"
    by simp
  have len: "unat (of_nat (length d) :: uint64) = length d"
    using assms by (intro unat_of_nat_64) simp
  show ?thesis
  proof (cases "ok \<and> unat l \<le> length d")
    case False
    then show ?thesis
      using Pair len by (auto simp: Name_def lim word_less_nat_alt)
  next
    case True
    then have fits: "\<not> l > of_nat (length d)"
      using len by (simp add: word_less_nat_alt)
    have scan: "Name d = Name_scan d ?no l ?no"
      using Pair True fits by (simp add: Name_def lim Let_def)
    show ?thesis
    proof (cases "unat l < Offsetof_Name")
      case short: True
      then have "\<not> ?no \<le> l"
        using no by (simp add: word_le_nat_alt)
      from Name_scan_empty_range [OF this] short Pair True show ?thesis
        by (simp add: scan)
    next
      case long: False
      then have "?no \<le> l"
        using no by (simp add: word_le_nat_alt)
      from Name_scan_takeWhile [OF order_refl this] True long Pair show ?thesis
        by (simp add: scan)
    qed
  qed
qed

text \<open>
  A pass of the loop over a record whose length field is zero: the position does not
  move, and the pass either goes round again in the same state (inode zero) or panics
  in \<open>Name\<close>.
\<close>

lemma ReadDir_drain_zero_reclen:
  assumes "Len (take (nat (avail - pos)) (drop (nat pos) buff)) = (0, True)"
  shows "ReadDir_drain yield fd buff pos avail acc =
     (if fst (Ino (take (nat (avail - pos)) (drop (nat pos) buff))) = 0
      then Continue fd buff pos avail acc else Stop (acc, Panicked))"
proof -
  let ?d = "take (nat (avail - pos)) (drop (nat pos) buff)"
  obtain ino where ino: "Ino ?d = (ino, True)"
    using Len_ok_Ino_ok [OF assms] by (cases "Ino ?d") auto
  show ?thesis
    using assms ino Len_zero_Name_Panic [OF assms]
    by (simp add: ReadDir_drain_def)
qed

lemma ReadDir_loop_stuck:
  assumes "pos < avail"
    and "Len (take (nat (avail - pos)) (drop (nat pos) buff)) = (0, True)"
    and "fst (Ino (take (nat (avail - pos)) (drop (nat pos) buff))) = 0"
  shows "ReadDir_loop yield fd buff pos avail acc = None"
proof -
  have body: "ReadDir_body y f buff pos avail a = Continue f buff pos avail a" for y f a
    using assms by (simp add: ReadDir_body_def ReadDir_fill_def ReadDir_drain_zero_reclen)
  have "\<not> (b = buff \<and> p = pos \<and> av = avail)"
    if "ReadDir_loop y f b p av a = Some r" for y f b p av a r
  proof (rule ReadDir_loop.raw_induct
      [where P = "\<lambda>y f b p av a r. \<not> (b = buff \<and> p = pos \<and> av = avail)", OF _ that])
    fix loop y f b p av a r
    assume IH: "\<And>y f b p av a r. loop y f b p av a = Some r
        \<Longrightarrow> \<not> (b = buff \<and> p = pos \<and> av = avail)"
      and run: "(case ReadDir_body y f b p av a of Stop r \<Rightarrow> Some r
        | Continue f' b' p' av' a' \<Rightarrow> loop y f' b' p' av' a') = Some r"
    show "\<not> (b = buff \<and> p = pos \<and> av = avail)"
    proof
      assume "b = buff \<and> p = pos \<and> av = avail"
      with run have "loop y f buff pos avail a = Some r"
        by (simp add: body)
      from IH [OF this] show False by simp
    qed
  qed
  then have "ReadDir_loop yield fd buff pos avail acc \<noteq> Some r" for r
    by blast
  then show ?thesis
    by (metis not_Some_eq)
qed

lemma ReadDir_zero_reclen_panics:
  "ReadDir (Some [Filled (1 # replicate 23 0)]) yield = Some ([], Panicked)"
proof -
  have len: "Len (1 # replicate 23 0) = (0, True)"
    by code_simp
  have ino: "fst (Ino (1 # replicate 23 0)) = 1"
    by code_simp
  have "ReadDir_body yield [Filled (1 # replicate 23 0)] [] 0 0 [] = Stop ([], Panicked)"
    using len ino by (simp add: ReadDir_body_def ReadDir_fill_def ReadDir_drain_zero_reclen)
  then show ?thesis
    by (simp add: ReadDir_def ReadDir_loop.simps)
qed

text \<open>
  C4. The claim: when the record length at the scan position decodes to zero, the scan
  ends silently. The code ends the scan only when the length cannot be decoded or is
  larger than the rest of the buffer; zero passes that test. A directory whose first
  read delivers 24 zero bytes (record length 0, inode 0) makes the loop go round
  forever in the same state: the iterator function never returns. (With a non-zero
  inode it panics in \<open>Name\<close> instead, see \<open>ReadDir_zero_reclen_panics\<close>.)
\<close>

theorem ReadDir_zero_reclen_never_returns:
  "ReadDir (Some [Filled (replicate 24 0)]) yield = None"
proof -
  have len: "Len (replicate 24 0) = (0, True)"
    by code_simp
  have ino: "fst (Ino (replicate 24 0)) = 0"
    by code_simp
  have "ReadDir_body yield [Filled (replicate 24 0)] [] 0 0 []
      = Continue [] (replicate 24 0) 0 24 []"
    using len ino by (simp add: ReadDir_body_def ReadDir_fill_def ReadDir_drain_zero_reclen)
  then have "ReadDir_loop yield [Filled (replicate 24 0)] [] 0 0 []
      = ReadDir_loop yield [] (replicate 24 0) 0 24 []"
    by (subst ReadDir_loop.simps) simp
  also have "\<dots> = None"
    using len ino by (intro ReadDir_loop_stuck) simp_all
  finally show ?thesis by (simp add: ReadDir_def)
qed

section \<open>The iterator on well-formed reads\<close>

lemma wf_dirent_bounds:
  assumes "wf_dirent r"
  shows "19 \<le> length r" and "length r < 2 ^ 64" and "unat (of_nat (length r) :: uint64) = length r"
proof -
  from assms show "19 \<le> length r"
    by (simp add: wf_dirent_def Offsetof_Name_def)
  from assms have "length r < 2 ^ 16"
    by (simp add: wf_dirent_def)
  then show "length r < 2 ^ 64"
    by simp
  then show "unat (of_nat (length r) :: uint64) = length r"
    by (rule unat_of_nat_64)
qed

lemma Len_wf_dirent:
  assumes "wf_dirent r"
  shows "Len (r @ post) = (of_nat (length r), True)"
  using assms wf_dirent_bounds(1) [OF assms]
  by (simp add: Len_def readUint_def wf_dirent_def Offsetof_Reclen_def Sizeof_Reclen_def)

lemma Ino_wf_dirent:
  assumes "wf_dirent r"
  shows "Ino (r @ post) = (dirent_ino r, True)"
  using wf_dirent_bounds(1) [OF assms]
  by (simp add: Ino_def readUint_def dirent_ino_def Offsetof_Ino_def Sizeof_Ino_def)

lemma Type_wf_dirent:
  assumes "wf_dirent r" and "length (r @ post) < 2 ^ 63"
  shows "Type (r @ post) = (dirent_type r, True)"
proof -
  have "unat (of_nat (length (r @ post)) :: uint64) = length (r @ post)"
    using assms(2) by (intro unat_of_nat_64) simp
  then have "\<not> (of_nat Offsetof_Type :: uint64) \<ge> of_nat (length (r @ post))"
    using wf_dirent_bounds(1) [OF assms(1)]
    by (simp add: word_le_nat_alt Offsetof_Type_def)
  then show ?thesis
    using wf_dirent_bounds(1) [OF assms(1)]
    by (simp add: Type_def dirent_type_def nth_append Offsetof_Type_def)
qed

lemma Name_wf_dirent:
  assumes "wf_dirent r" and "length (r @ post) < 2 ^ 63"
  shows "Name (r @ post) = Return (Some (Offsetof_Name, Offsetof_Name + length (dirent_name r)))"
    and "span_bytes (r @ post) (Offsetof_Name, Offsetof_Name + length (dirent_name r)) = dirent_name r"
proof -
  let ?n = "unat (of_nat (length r) :: uint64)"
  have n: "?n = length r"
    by (rule wf_dirent_bounds(3) [OF assms(1)])
  have lo: "Offsetof_Name \<le> ?n"
    using assms(1) by (simp add: n wf_dirent_def)
  have hi: "?n \<le> length (r @ post)"
    by (simp add: n)
  have region: "take (?n - Offsetof_Name) (drop Offsetof_Name (r @ post)) = drop Offsetof_Name r"
    using lo by (simp add: n)
  from Name_declared_region [OF assms(2) Len_wf_dirent [OF assms(1)] lo hi]
  show "Name (r @ post) = Return (Some (Offsetof_Name, Offsetof_Name + length (dirent_name r)))"
    by (simp only: region dirent_name_def)
  from span_bytes_takeWhile [of "r @ post" Offsetof_Name "\<lambda>c. c \<noteq> 0" "?n - Offsetof_Name"]
  show "span_bytes (r @ post) (Offsetof_Name, Offsetof_Name + length (dirent_name r)) = dirent_name r"
    by (simp only: region dirent_name_def)
qed

lemma ReadDir_drain_decoded:
  assumes "take (nat (avail - pos)) (drop (nat pos) buff) = d"
    and "Len d = (l, True)" and "\<not> l > of_nat (length d)"
    and "Ino d = (ino, True)" and "Name d = Return (Some sp)" and "Type d = (ty, True)"
  shows "ReadDir_drain yield fd buff pos avail acc
     = (if ino = 0 \<or> span_bytes d sp = [0x2E] \<or> span_bytes d sp = [0x2E, 0x2E]
        then Continue fd buff (pos + uint l) avail acc
        else if yield acc \<lparr>de_Ino = ino, de_Name = span_bytes d sp, de_Type = ty\<rparr>
        then Continue fd buff (pos + uint l) avail
               (acc @ [\<lparr>de_Ino = ino, de_Name = span_bytes d sp, de_Type = ty\<rparr>])
        else Stop (acc @ [\<lparr>de_Ino = ino, de_Name = span_bytes d sp, de_Type = ty\<rparr>], Finished))"
  by (simp add: ReadDir_drain_def Let_def assms)

lemma ReadDir_drain_wf_dirent:
  assumes "wf_dirent r" and "length (pre @ r @ post) \<le> readDirBufferSize"
  shows "ReadDir_drain yield fd (pre @ r @ post) (int (length pre)) (int (length (pre @ r @ post))) acc
     = (if real_entry r
        then (if yield acc (cooked r)
              then Continue fd (pre @ r @ post) (int (length (pre @ r)))
                     (int (length (pre @ r @ post))) (acc @ [cooked r])
              else Stop (acc @ [cooked r], Finished))
        else Continue fd (pre @ r @ post) (int (length (pre @ r)))
               (int (length (pre @ r @ post))) acc)"
proof -
  define d where "d = r @ post"
  have short: "length (r @ post) < 2 ^ 63"
    using assms(2) by (simp add: readDirBufferSize_def)
  have dentry: "take (nat (int (length (pre @ r @ post)) - int (length pre)))
      (drop (nat (int (length pre))) (pre @ r @ post)) = d"
    by (simp add: d_def)
  have "unat (of_nat (length d) :: uint64) = length d"
    using short unfolding d_def by (intro unat_of_nat_64) simp
  moreover have "length r \<le> length d"
    by (simp add: d_def)
  ultimately have fits: "\<not> (of_nat (length r) :: uint64) > of_nat (length d)"
    using wf_dirent_bounds(3) [OF assms(1)] by (simp add: word_less_nat_alt)
  have adv: "int (length pre) + uint (of_nat (length r) :: uint64) = int (length (pre @ r))"
    using wf_dirent_bounds(3) [OF assms(1)] by (simp add: uint_nat)
  have dots: "ascii ''.'' = [0x2E]" "ascii ''..'' = [0x2E, 0x2E]"
    by (simp_all add: ascii_def)
  note name = Name_wf_dirent [OF assms(1) short, folded d_def]
  have "ReadDir_drain yield fd (pre @ r @ post) (int (length pre)) (int (length (pre @ r @ post))) acc
     = (if dirent_ino r = 0 \<or> dirent_name r = [0x2E] \<or> dirent_name r = [0x2E, 0x2E]
        then Continue fd (pre @ r @ post) (int (length (pre @ r))) (int (length (pre @ r @ post))) acc
        else if yield acc \<lparr>de_Ino = dirent_ino r, de_Name = dirent_name r, de_Type = dirent_type r\<rparr>
        then Continue fd (pre @ r @ post) (int (length (pre @ r))) (int (length (pre @ r @ post)))
               (acc @ [\<lparr>de_Ino = dirent_ino r, de_Name = dirent_name r, de_Type = dirent_type r\<rparr>])
        else Stop (acc @ [\<lparr>de_Ino = dirent_ino r, de_Name = dirent_name r, de_Type = dirent_type r\<rparr>], Finished))"
    using ReadDir_drain_decoded [OF dentry Len_wf_dirent [OF assms(1), of post, folded d_def] fits
        Ino_wf_dirent [OF assms(1), of post, folded d_def] name(1)
        Type_wf_dirent [OF assms(1) short, folded d_def], of yield fd acc]
    by (simp only: name(2) adv)
  then show ?thesis
    by (simp add: real_entry_def cooked_def dots)
qed


lemma ReadDir_loop_Continue:
  assumes "ReadDir_body yield fd buff pos avail acc = Continue fd' buff' pos' avail' acc'"
  shows "ReadDir_loop yield fd buff pos avail acc = ReadDir_loop yield fd' buff' pos' avail' acc'"
  by (subst ReadDir_loop.simps) (simp add: assms)

lemma ReadDir_loop_Stop:
  assumes "ReadDir_body yield fd buff pos avail acc = Stop res"
  shows "ReadDir_loop yield fd buff pos avail acc = Some res"
  by (subst ReadDir_loop.simps) (simp add: assms)

lemma ReadDir_loop_same_body:
  assumes "ReadDir_body yield fd buff pos avail acc = ReadDir_body yield fd' buff' pos' avail' acc'"
  shows "ReadDir_loop yield fd buff pos avail acc = ReadDir_loop yield fd' buff' pos' avail' acc'"
  by (simp only: ReadDir_loop.simps [of yield fd buff pos avail acc]
      ReadDir_loop.simps [of yield fd' buff' pos' avail' acc'] assms)

lemma ReadDir_loop_refill:
  assumes "bytes \<noteq> []" and "avail \<le> pos"
  shows "ReadDir_loop yield (Filled bytes # fd) buff pos avail acc
     = ReadDir_loop yield fd bytes 0 (int (length bytes)) acc"
proof (rule ReadDir_loop_same_body)
  show "ReadDir_body yield (Filled bytes # fd) buff pos avail acc
      = ReadDir_body yield fd bytes 0 (int (length bytes)) acc"
    using assms by (simp add: ReadDir_body_def ReadDir_fill_def)
qed

lemma ReadDir_loop_records:
  assumes "list_all wf_dirent rs" and "length (pre @ concat rs) \<le> readDirBufferSize"
  shows "ReadDir_loop all_wanted fd (pre @ concat rs) (int (length pre))
           (int (length (pre @ concat rs))) acc
     = ReadDir_loop all_wanted fd (pre @ concat rs) (int (length (pre @ concat rs)))
           (int (length (pre @ concat rs))) (acc @ map cooked (filter real_entry rs))"
  using assms
proof (induction rs arbitrary: pre acc)
  case Nil
  show ?case by simp
next
  case (Cons r rs)
  let ?buff = "pre @ r @ concat rs"
  have r: "wf_dirent r" and rs: "list_all wf_dirent rs"
    using Cons.prems(1) by simp_all
  have len: "length ?buff \<le> readDirBufferSize"
    using Cons.prems(2) by simp
  have "int (length pre) < int (length ?buff)"
    using wf_dirent_bounds(1) [OF r] by simp
  then have body: "ReadDir_body all_wanted fd ?buff (int (length pre)) (int (length ?buff)) acc
      = ReadDir_drain all_wanted fd ?buff (int (length pre)) (int (length ?buff)) acc"
    by (simp add: ReadDir_body_def ReadDir_fill_def)
  have drain: "ReadDir_drain all_wanted fd ?buff (int (length pre)) (int (length ?buff)) acc
      = (if real_entry r
         then Continue fd ?buff (int (length (pre @ r))) (int (length ?buff)) (acc @ [cooked r])
         else Continue fd ?buff (int (length (pre @ r))) (int (length ?buff)) acc)"
    using ReadDir_drain_wf_dirent [OF r len, of all_wanted fd acc]
    by (simp only: all_wanted_def if_True)
  have "ReadDir_body all_wanted fd ?buff (int (length pre)) (int (length ?buff)) acc
      = Continue fd ?buff (int (length (pre @ r))) (int (length ?buff))
          (acc @ map cooked (filter real_entry [r]))"
    unfolding body drain by simp
  then have "ReadDir_loop all_wanted fd ?buff (int (length pre)) (int (length ?buff)) acc
      = ReadDir_loop all_wanted fd ?buff (int (length (pre @ r))) (int (length ?buff))
          (acc @ map cooked (filter real_entry [r]))"
    by (rule ReadDir_loop_Continue)
  also have "\<dots> = ReadDir_loop all_wanted fd ?buff (int (length ?buff)) (int (length ?buff))
          ((acc @ map cooked (filter real_entry [r])) @ map cooked (filter real_entry rs))"
    using Cons.IH [OF rs, of "pre @ r" "acc @ map cooked (filter real_entry [r])"] len
    by simp
  finally show ?case
    by simp
qed

lemma concat_wf_batch_nonempty:
  assumes "wf_batch recs"
  shows "concat recs \<noteq> []"
proof -
  from assms obtain r rs where recs: "recs = r # rs"
    by (cases recs) (simp_all add: wf_batch_def)
  with assms have "wf_dirent r"
    by (simp add: wf_batch_def)
  from wf_dirent_bounds(1) [OF this] recs show ?thesis
    by auto
qed

lemma ReadDir_loop_batches:
  assumes "list_all wf_batch batches" and "avail \<le> pos"
  shows "ReadDir_loop all_wanted (map (\<lambda>recs. Filled (concat recs)) batches) buff pos avail acc
     = Some (acc @ map cooked (filter real_entry (concat batches)), Finished)"
  using assms
proof (induction batches arbitrary: buff pos avail acc)
  case Nil
  then have "ReadDir_body all_wanted [] buff pos avail acc = Stop (acc, Finished)"
    by (simp add: ReadDir_body_def ReadDir_fill_def)
  then show ?case
    by (simp add: ReadDir_loop_Stop)
next
  case (Cons recs batches)
  let ?bytes = "concat recs"
  let ?fd = "map (\<lambda>recs. Filled (concat recs)) batches"
  have recs: "wf_batch recs" and batches: "list_all wf_batch batches"
    using Cons.prems(1) by simp_all
  have nonempty: "?bytes \<noteq> []"
    using recs by (rule concat_wf_batch_nonempty)
  have wf: "list_all wf_dirent recs" and len: "length ([] @ ?bytes) \<le> readDirBufferSize"
    using recs by (simp_all add: wf_batch_def)
  have "ReadDir_loop all_wanted (Filled ?bytes # ?fd) buff pos avail acc
      = ReadDir_loop all_wanted ?fd ?bytes 0 (int (length ?bytes)) acc"
    using nonempty Cons.prems(2) by (rule ReadDir_loop_refill)
  also have "\<dots> = ReadDir_loop all_wanted ?fd ?bytes (int (length ?bytes)) (int (length ?bytes))
      (acc @ map cooked (filter real_entry recs))"
    using ReadDir_loop_records [OF wf len, of ?fd acc] by simp
  also have "\<dots> = Some ((acc @ map cooked (filter real_entry recs))
      @ map cooked (filter real_entry (concat batches)), Finished)"
    by (rule Cons.IH [OF batches]) simp
  finally show ?case
    by simp
qed

text \<open>
  C2. For a directory whose reads each deliver well-formed records, and a consumer
  that takes every entry, the iterator returns after having yielded exactly the
  records with a non-zero inode and a name other than \<open>.\<close> and \<open>..\<close>, each as its
  inode, name and type, in the order of the records in the buffers; every yielded
  entry has a non-zero inode.
\<close>

theorem ReadDir_yields_real_entries:
  assumes "list_all wf_batch batches"
  shows "ReadDir (Some (map (\<lambda>recs. Filled (concat recs)) batches)) all_wanted
       = Some (map cooked (filter real_entry (concat batches)), Finished)
     \<and> list_all (\<lambda>e. de_Ino e \<noteq> 0) (map cooked (filter real_entry (concat batches)))"
proof
  from ReadDir_loop_batches [OF assms, of 0 0 "[]" "[]"]
  show "ReadDir (Some (map (\<lambda>recs. Filled (concat recs)) batches)) all_wanted
      = Some (map cooked (filter real_entry (concat batches)), Finished)"
    by (simp add: ReadDir_def)
  show "list_all (\<lambda>e. de_Ino e \<noteq> 0) (map cooked (filter real_entry (concat batches)))"
    by (simp add: list_all_iff real_entry_def cooked_def)
qed


theorem ReadDir_yields_real_entries_witness:
  "list_all wf_batch
    [[[1, 0, 0, 0, 0, 0, 0, 0, 0, 0, 0, 0, 0, 0, 0, 0, 21, 0, 4, 0x2E, 0],
      [2, 0, 0, 0, 0, 0, 0, 0, 0, 0, 0, 0, 0, 0, 0, 0, 22, 0, 8, 0x61, 0x62, 0]],
     [[0, 0, 0, 0, 0, 0, 0, 0, 0, 0, 0, 0, 0, 0, 0, 0, 20, 0, 8, 0x78],
      [3, 0, 0, 0, 0, 0, 0, 0, 0, 0, 0, 0, 0, 0, 0, 0, 20, 0, 10, 0x79]]]
   \<and> ReadDir (Some [Filled ([1, 0, 0, 0, 0, 0, 0, 0, 0, 0, 0, 0, 0, 0, 0, 0, 21, 0, 4, 0x2E, 0]
                         @ [2, 0, 0, 0, 0, 0, 0, 0, 0, 0, 0, 0, 0, 0, 0, 0, 22, 0, 8, 0x61, 0x62, 0]),
                    Filled ([0, 0, 0, 0, 0, 0, 0, 0, 0, 0, 0, 0, 0, 0, 0, 0, 20, 0, 8, 0x78]
                         @ [3, 0, 0, 0, 0, 0, 0, 0, 0, 0, 0, 0, 0, 0, 0, 0, 20, 0, 10, 0x79])]) all_wanted
     = Some ([\<lparr>de_Ino = 2, de_Name = ascii ''ab'', de_Type = 8\<rparr>,
              \<lparr>de_Ino = 3, de_Name = ascii ''y'', de_Type = 10\<rparr>], Finished)"
proof -
  let ?batches = "[[[1, 0, 0, 0, 0, 0, 0, 0, 0, 0, 0, 0, 0, 0, 0, 0, 21, 0, 4, 0x2E, 0],
      [2, 0, 0, 0, 0, 0, 0, 0, 0, 0, 0, 0, 0, 0, 0, 0, 22, 0, 8, 0x61, 0x62, 0]],
     [[0, 0, 0, 0, 0, 0, 0, 0, 0, 0, 0, 0, 0, 0, 0, 0, 20, 0, 8, 0x78],
      [3, 0, 0, 0, 0, 0, 0, 0, 0, 0, 0, 0, 0, 0, 0, 0, 20, 0, 10, 0x79]]] :: byte list list list"
  have wf: "list_all wf_batch ?batches"
    by (simp add: wf_batch_def wf_dirent_def readDirBufferSize_def
        Offsetof_Name_def Offsetof_Reclen_def Sizeof_Reclen_def)
  have entries: "map cooked (filter real_entry (concat ?batches))
      = [\<lparr>de_Ino = 2, de_Name = ascii ''ab'', de_Type = 8\<rparr>,
         \<lparr>de_Ino = 3, de_Name = ascii ''y'', de_Type = 10\<rparr>]"
    by (simp add: cooked_def real_entry_def dirent_ino_def dirent_name_def dirent_type_def
        ascii_def Offsetof_Name_def Offsetof_Ino_def Sizeof_Ino_def Offsetof_Type_def)
  from ReadDir_yields_real_entries [OF wf] wf show ?thesis
    unfolding entries by simp
qed

end
